theory Spec2Isabelle
  imports Main "HOL-Library.Char_ord" "HOL-Library.List_Lexorder" "HOL-Library.Sublist"
    "HOL-Library.Multiset"
begin

text \<open>
  A shallow embedding of the output canonicaliser and of the fixture and catalogue
  operations of \<^verbatim>\<open>suite/testcommon.py\<close>. Python strings are modelled as
  \<^typ>\<open>string\<close>, lists of 8-bit characters; on these the class \<^verbatim>\<open>\d\<close> of the
  \<^verbatim>\<open>re\<close> module is exactly \<^verbatim>\<open>0\<close> to \<^verbatim>\<open>9\<close>. Regular expressions are embedded
  as the scanners that \<^verbatim>\<open>re.split\<close> of CPython 3.7 and later runs for them.
\<close>

section \<open>Numeric-literal suffix normalisation: \<^verbatim>\<open>fixOutput\<close>\<close>

text \<open>The character classes \<^verbatim>\<open>[\d]\<close> and \<^verbatim>\<open>[\da-f]\<close>.\<close>

definition is_digit :: "char \<Rightarrow> bool" where
  "is_digit c = (c \<in> set ''0123456789'')"

definition is_hex :: "char \<Rightarrow> bool" where
  "is_hex c = (c \<in> set ''0123456789abcdef'')"

text \<open>
  The pattern is \<^verbatim>\<open>((?<=[\[ ])0x[\da-f]+L|[\d]+L)\<close>: an alternation of two branches inside
  one capture group. \<open>match_hex prev s\<close> is the first branch tried at the start of \<open>s\<close>,
  where \<open>prev\<close> is the character just before \<open>s\<close> (the look-behind reads it); the
  result is the length of the match. The greedy run \<^verbatim>\<open>[\da-f]+\<close> can only be followed by
  \<^verbatim>\<open>L\<close> at its full length, since \<^verbatim>\<open>L\<close> is not in the class. \<open>match_dec\<close> is the second
  branch, which has no look-behind.
\<close>

definition match_hex :: "char option \<Rightarrow> string \<Rightarrow> nat option" where
  "match_hex prev s =
     (case s of
        c0 # c1 # r \<Rightarrow>
          if (prev = Some CHR ''['' \<or> prev = Some CHR '' '') \<and> c0 = CHR ''0'' \<and> c1 = CHR ''x''
             \<and> takeWhile is_hex r \<noteq> [] \<and> take 1 (dropWhile is_hex r) = ''L''
          then Some (length (takeWhile is_hex r) + 3)
          else None
      | _ \<Rightarrow> None)"

definition match_dec :: "string \<Rightarrow> nat option" where
  "match_dec s =
     (if takeWhile is_digit s \<noteq> [] \<and> take 1 (dropWhile is_digit s) = ''L''
      then Some (length (takeWhile is_digit s) + 1)
      else None)"

definition match_long :: "char option \<Rightarrow> string \<Rightarrow> nat option" where
  "match_long prev s =
     (case match_hex prev s of
        Some n \<Rightarrow> Some n
      | None \<Rightarrow> match_dec s)"

lemma match_long_pos: "match_long prev s = Some n \<Longrightarrow> 0 < n"
  by (auto simp: match_long_def match_hex_def match_dec_def
      split: option.splits list.splits if_splits)

text \<open>
  \<^verbatim>\<open>re.split\<close> with the pattern: the scan goes left to right; \<open>acc\<close> is the text since
  the last match. A match closes the current piece and is itself a piece (the capture
  group); the text after the last match is the final piece.
\<close>

function re_split_longs :: "char option \<Rightarrow> string \<Rightarrow> string \<Rightarrow> string list" where
  "re_split_longs prev acc [] = [acc]"
| "re_split_longs prev acc (c # cs) =
     (case match_long prev (c # cs) of
        Some n \<Rightarrow> acc # take n (c # cs) # re_split_longs (Some CHR ''L'') [] (drop n (c # cs))
      | None \<Rightarrow> re_split_longs (Some c) (acc @ [c]) cs)"
  by pat_completeness auto
termination
  by (relation "measure (\<lambda>(prev, acc, s). length s)") (auto dest: match_long_pos)

text \<open>The second loop: every item longer than one character that ends in \<^verbatim>\<open>L\<close> loses it.\<close>

definition strip_L :: "string \<Rightarrow> string" where
  "strip_L item = (if 1 < length item \<and> last item = CHR ''L'' then butlast item else item)"

definition fix_items :: "string list \<Rightarrow> string" where
  "fix_items items = concat (map strip_L items)"

text \<open>
  An element of the output list is a string, a list of strings (which the second loop
  takes for a split string, its test being \<^verbatim>\<open>isinstance(elem, list)\<close>), or any other
  value. The first loop yields \<open>Pieces\<close> for a string and keeps every other element.
\<close>

datatype 'a elem = Str string | StrList "string list" | Other 'a

datatype 'a split_elem = Pieces "string list" | Kept "'a elem"

definition split_elem_of :: "'a elem \<Rightarrow> 'a split_elem" where
  "split_elem_of e = (case e of Str s \<Rightarrow> Pieces (re_split_longs None [] s) | _ \<Rightarrow> Kept e)"

definition resolve_elem :: "'a split_elem \<Rightarrow> 'a elem" where
  "resolve_elem e =
     (case e of
        Pieces items \<Rightarrow> Str (fix_items items)
      | Kept (StrList items) \<Rightarrow> Str (fix_items items)
      | Kept x \<Rightarrow> x)"

definition fixOutput :: "'a elem list \<Rightarrow> 'a elem list" where
  "fixOutput outputList = map resolve_elem (map split_elem_of outputList)"

section \<open>Set-notation ordering: \<^verbatim>\<open>fixSet\<close>\<close>

definition set_open :: string where
  "set_open = ''<in set([''"

definition set_close :: string where
  "set_close = ''])>''"

text \<open>
  The pattern is \<^verbatim>\<open>((?<=<in set\(\[).*(?=\]\)>))\<close>. \<open>last_close line\<close> is the greatest
  offset in \<open>line\<close> at which the look-ahead holds, the end of the greedy \<^verbatim>\<open>.*\<close>. The dot
  matches every character but the newline, so \<open>match_set\<close> looks within the current
  line only. \<open>seen\<close> is the text before the position, reversed. \<open>must_advance\<close> is the
  flag \<^verbatim>\<open>re.split\<close> sets after an empty match: the next match may not be empty at the
  same position.
\<close>

fun last_close :: "string \<Rightarrow> nat option" where
  "last_close [] = None"
| "last_close (c # cs) =
     (case last_close cs of
        Some k \<Rightarrow> Some (Suc k)
      | None \<Rightarrow> if prefix set_close (c # cs) then Some 0 else None)"

definition match_set :: "bool \<Rightarrow> string \<Rightarrow> string \<Rightarrow> nat option" where
  "match_set must_advance seen rest =
     (if prefix (rev set_open) seen
      then (case last_close (takeWhile (\<lambda>c. c \<noteq> CHR 0x0A) rest) of
              Some k \<Rightarrow> if must_advance \<and> k = 0 then None else Some k
            | None \<Rightarrow> None)
      else None)"

lemma last_close_le: "last_close s = Some k \<Longrightarrow> k < length s"
  by (induction s arbitrary: k) (auto split: option.splits if_splits)

lemma match_set_le: "match_set adv seen rest = Some k \<Longrightarrow> k < length rest"
proof -
  assume "match_set adv seen rest = Some k"
  then have "last_close (takeWhile (\<lambda>c. c \<noteq> CHR 0x0A) rest) = Some k"
    by (auto simp: match_set_def split: if_splits option.splits)
  then have "k < length (takeWhile (\<lambda>c. c \<noteq> CHR 0x0A) rest)" by (rule last_close_le)
  also have "\<dots> \<le> length rest" by (rule length_takeWhile_le)
  finally show ?thesis .
qed

lemma match_set_adv: "match_set True seen rest = Some k \<Longrightarrow> 0 < k"
  by (auto simp: match_set_def split: if_splits option.splits)

function re_split_set :: "bool \<Rightarrow> string \<Rightarrow> string \<Rightarrow> string \<Rightarrow> string list" where
  "re_split_set must_advance seen acc rest =
     (case match_set must_advance seen rest of
        Some k \<Rightarrow> acc # take k rest # re_split_set (k = 0) (rev (take k rest) @ seen) [] (drop k rest)
      | None \<Rightarrow>
          (case rest of
             [] \<Rightarrow> [acc]
           | c # cs \<Rightarrow> re_split_set False (c # seen) (acc @ [c]) cs))"
  by pat_completeness auto
termination
proof (relation "measure (\<lambda>(adv, seen, acc, rest). 2 * length rest + (if adv then 0 else 1))")
  show "wf (measure (\<lambda>(adv, seen, acc, rest). 2 * length rest + (if adv then 0 else 1)))"
    by simp
next
  fix adv :: bool and seen acc rest :: string and k :: nat
  assume m: "match_set adv seen rest = Some k"
  have "k < length rest" using m by (rule match_set_le)
  moreover have "adv \<Longrightarrow> 0 < k" using m by (auto dest: match_set_adv)
  ultimately show "((k = 0, rev (take k rest) @ seen, [], drop k rest), adv, seen, acc, rest)
      \<in> measure (\<lambda>(adv, seen, acc, rest). 2 * length rest + (if adv then 0 else 1))"
    by (cases adv; cases "k = 0") auto
next
  fix adv :: bool and seen acc rest cs :: string and c :: char
  assume "rest = c # cs"
  then show "((False, c # seen, acc @ [c], cs), adv, seen, acc, rest)
      \<in> measure (\<lambda>(adv, seen, acc, rest). 2 * length rest + (if adv then 0 else 1))"
    by simp
qed

declare re_split_set.simps [simp del]

text \<open>\<^verbatim>\<open>s.split(', ')\<close> and \<^verbatim>\<open>sep.join(xs)\<close> of Python strings.\<close>

fun split_comma :: "string \<Rightarrow> string list" where
  "split_comma [] = [[]]"
| "split_comma [c] = [[c]]"
| "split_comma (c # d # cs) =
     (if c = CHR '','' \<and> d = CHR '' '' then [] # split_comma cs
      else (case split_comma (d # cs) of
              p # ps \<Rightarrow> (c # p) # ps
            | [] \<Rightarrow> [[c]]))"

fun join :: "string \<Rightarrow> string list \<Rightarrow> string" where
  "join sep [] = []"
| "join sep [x] = x"
| "join sep (x # y # ys) = x @ sep @ join sep (y # ys)"

text \<open>
  \<^verbatim>\<open>sorted\<close> on strings is the lexicographic order of the code points, which is the order
  of \<^typ>\<open>string\<close> here. The split list has an odd length, so index 2 exists whenever
  its length exceeds 1 (lemma \<open>re_split_set_odd\<close> below).
\<close>

definition fixSet :: "string \<Rightarrow> string" where
  "fixSet string =
     (let splitList = re_split_set False [] [] string
      in if 1 < length splitList
         then splitList ! 0 @ join '', '' (sort (split_comma (splitList ! 1))) @ splitList ! 2
         else string)"

section \<open>Confidence-qualifier stripping: \<^verbatim>\<open>remove_low_confidence\<close>\<close>

text \<open>\<^verbatim>\<open>s.replace(old, new)\<close> for a non-empty \<open>old\<close>: leftmost occurrences, not overlapping.\<close>

function str_replace :: "string \<Rightarrow> string \<Rightarrow> string \<Rightarrow> string" where
  "str_replace old new [] = []"
| "str_replace old new (c # cs) =
     (if old \<noteq> [] \<and> prefix old (c # cs)
      then new @ str_replace old new (drop (length old) (c # cs))
      else c # str_replace old new cs)"
  by pat_completeness auto
termination
  by (relation "measure (\<lambda>(old, new, s). length s)") auto

definition low_confidence_types :: "string list" where
  "low_confidence_types = [''int32_t'', ''void'']"

definition remove_low_confidence :: "string \<Rightarrow> string" where
  "remove_low_confidence type_string =
     fold (\<lambda>lct t. str_replace (lct @ '' '') [] t) low_confidence_types type_string"

section \<open>The builder: test catalogue and fixtures\<close>

text \<open>
  An object is the table of its attributes, the first binding of a name being the one
  attribute lookup finds. \<^verbatim>\<open>inspect.getmembers\<close> walks the names of \<^verbatim>\<open>dir\<close>, which are
  sorted and unique, and keeps the pairs whose value satisfies the predicate.
\<close>

datatype member = Method | Attribute

type_synonym obj = "(string \<times> member) list"

definition dir_names :: "obj \<Rightarrow> string list" where
  "dir_names ob = sort (remdups (map fst ob))"

definition getmembers :: "(member \<Rightarrow> bool) \<Rightarrow> obj \<Rightarrow> (string \<times> member) list" where
  "getmembers predicate ob =
     concat (map (\<lambda>n. case map_of ob n of
                          Some v \<Rightarrow> if predicate v then [(n, v)] else []
                        | None \<Rightarrow> [])
                 (dir_names ob))"

definition ismethod :: "member \<Rightarrow> bool" where
  "ismethod v = (v = Method)"

definition methods :: "obj \<Rightarrow> string list" where
  "methods self = map fst (filter (\<lambda>(methodname, _). prefix ''test_'' methodname)
                                  (getmembers ismethod self))"











section \<open>Notions for the claims about \<^verbatim>\<open>fixOutput\<close>\<close>

text \<open>\<open>fix_str\<close> is what both loops together do to one string element.\<close>

definition fix_str :: "string \<Rightarrow> string" where
  "fix_str s = fix_items (re_split_longs None [] s)"

text \<open>
  A token is a piece the pattern matched: a literal that begins with a digit, holds no
  \<^verbatim>\<open>L\<close>, and is followed by the suffix. In a split list the tokens stand at the odd
  positions.
\<close>

definition is_tok :: "string \<Rightarrow> bool" where
  "is_tok m = (1 < length m \<and> last m = CHR ''L'' \<and> CHR ''L'' \<notin> set (butlast m)
               \<and> is_digit (hd m) \<and> is_hex (last (butlast m)))"

fun toks_ok :: "string list \<Rightarrow> bool" where
  "toks_ok (p # m # rest) = (is_tok m \<and> toks_ok rest)"
| "toks_ok [p] = True"
| "toks_ok [] = False"

text \<open>
  \<open>no_hex_L s\<close>: no \<^verbatim>\<open>L\<close> of \<open>s\<close> stands directly after a character of \<^verbatim>\<open>[0-9a-f]\<close>.
  A split list is quiet when each of its unmatched pieces has this property, does not end
  in \<^verbatim>\<open>L\<close>, and, if it follows a token, does not begin with \<^verbatim>\<open>L\<close>. An element is quiet
  when it is a string with a quiet split list, or a value that is neither a string nor a
  list.
\<close>

fun no_hex_L :: "string \<Rightarrow> bool" where
  "no_hex_L (a # b # r) = (\<not> (is_hex a \<and> b = CHR ''L'') \<and> no_hex_L (b # r))"
| "no_hex_L r = True"

definition piece_ok :: "bool \<Rightarrow> string \<Rightarrow> bool" where
  "piece_ok after p =
     (no_hex_L p \<and> (p = [] \<or> last p \<noteq> CHR ''L'') \<and> (after \<longrightarrow> p = [] \<or> hd p \<noteq> CHR ''L''))"

fun quiet :: "bool \<Rightarrow> string list \<Rightarrow> bool" where
  "quiet after (p # m # rest) = (piece_ok after p \<and> quiet True rest)"
| "quiet after [p] = piece_ok after p"
| "quiet after [] = True"

definition quiet_elem :: "'a elem \<Rightarrow> bool" where
  "quiet_elem e =
     (case e of
        Str s \<Rightarrow> quiet False (re_split_longs None [] s)
      | StrList items \<Rightarrow> False
      | Other x \<Rightarrow> True)"





section \<open>Notions for the claims about \<^verbatim>\<open>fixSet\<close> and \<^verbatim>\<open>remove_low_confidence\<close>\<close>

text \<open>
  A token is end-marked when its last character occurs nowhere else in it; then two
  occurrences of it cannot overlap.
\<close>

definition end_marked :: "string \<Rightarrow> bool" where
  "end_marked tok = (tok \<noteq> [] \<and> last tok \<notin> set (butlast tok))"

text \<open>
  A string has the shape when it holds the opening and, somewhere after it, the closing
  delimiter.
\<close>

definition has_shape :: "string \<Rightarrow> bool" where
  "has_shape s = (\<exists>a b c. s = a @ set_open @ b @ set_close @ c)"

section \<open>A scenario for the fixtures\<close>













section \<open>Facts about the split on long literals\<close>

lemma L_not_hex [simp]: "\<not> is_hex CHR ''L''" by (simp add: is_hex_def)

lemma L_not_digit [simp]: "\<not> is_digit CHR ''L''" by (simp add: is_digit_def)

lemma digit_is_hex: "is_digit c \<Longrightarrow> is_hex c" by (auto simp: is_digit_def is_hex_def)

lemma match_dec_iff:
  "match_dec s = Some n \<longleftrightarrow>
     (\<exists>d r. s = d @ CHR ''L'' # r \<and> d \<noteq> [] \<and> (\<forall>c\<in>set d. is_digit c) \<and> n = length d + 1)"
proof
  assume m: "match_dec s = Some n"
  define d where "d = takeWhile is_digit s"
  from m have d: "d \<noteq> []" and t: "take 1 (dropWhile is_digit s) = ''L''" and n: "n = length d + 1"
    by (auto simp: match_dec_def d_def split: if_splits)
  from t obtain r where r: "dropWhile is_digit s = CHR ''L'' # r"
    by (cases "dropWhile is_digit s") auto
  have "s = d @ CHR ''L'' # r" using takeWhile_dropWhile_id[of is_digit s] by (simp add: d_def r)
  moreover have "\<forall>c\<in>set d. is_digit c" by (auto simp: d_def dest: set_takeWhileD)
  ultimately show "\<exists>d r. s = d @ CHR ''L'' # r \<and> d \<noteq> [] \<and> (\<forall>c\<in>set d. is_digit c) \<and> n = length d + 1"
    using d n by blast
next
  assume "\<exists>d r. s = d @ CHR ''L'' # r \<and> d \<noteq> [] \<and> (\<forall>c\<in>set d. is_digit c) \<and> n = length d + 1"
  then obtain d r where s: "s = d @ CHR ''L'' # r" and d: "d \<noteq> []"
    and a: "\<forall>c\<in>set d. is_digit c" and n: "n = length d + 1" by blast
  have "takeWhile is_digit s = d" using a by (simp add: s takeWhile_append2)
  moreover have "dropWhile is_digit s = CHR ''L'' # r" using a by (simp add: s dropWhile_append2)
  ultimately show "match_dec s = Some n" using d n by (simp add: match_dec_def)
qed

lemma match_hex_iff:
  "match_hex prev s = Some n \<longleftrightarrow>
     ((prev = Some CHR ''['' \<or> prev = Some CHR '' '')
      \<and> (\<exists>h r. s = ''0x'' @ h @ CHR ''L'' # r \<and> h \<noteq> [] \<and> (\<forall>c\<in>set h. is_hex c)
                \<and> n = length h + 3))"
proof
  assume m: "match_hex prev s = Some n"
  then obtain t where s: "s = CHR ''0'' # CHR ''x'' # t"
    by (auto simp: match_hex_def split: list.splits if_splits)
  define h where "h = takeWhile is_hex t"
  from m have p: "prev = Some CHR ''['' \<or> prev = Some CHR '' ''" and h: "h \<noteq> []"
    and d: "take 1 (dropWhile is_hex t) = ''L''" and n: "n = length h + 3"
    by (auto simp: match_hex_def s h_def split: if_splits)
  from d obtain r where r: "dropWhile is_hex t = CHR ''L'' # r"
    by (cases "dropWhile is_hex t") auto
  have "t = h @ CHR ''L'' # r" using takeWhile_dropWhile_id[of is_hex t] by (simp add: h_def r)
  then have "s = ''0x'' @ h @ CHR ''L'' # r" by (simp add: s)
  moreover have "\<forall>c\<in>set h. is_hex c" by (auto simp: h_def dest: set_takeWhileD)
  ultimately show "(prev = Some CHR ''['' \<or> prev = Some CHR '' '')
      \<and> (\<exists>h r. s = ''0x'' @ h @ CHR ''L'' # r \<and> h \<noteq> [] \<and> (\<forall>c\<in>set h. is_hex c)
                \<and> n = length h + 3)"
    using p h n by blast
next
  assume "(prev = Some CHR ''['' \<or> prev = Some CHR '' '')
      \<and> (\<exists>h r. s = ''0x'' @ h @ CHR ''L'' # r \<and> h \<noteq> [] \<and> (\<forall>c\<in>set h. is_hex c)
                \<and> n = length h + 3)"
  then obtain h r where p: "prev = Some CHR ''['' \<or> prev = Some CHR '' ''"
    and s: "s = ''0x'' @ h @ CHR ''L'' # r" and h: "h \<noteq> []"
    and a: "\<forall>c\<in>set h. is_hex c" and n: "n = length h + 3" by blast
  have "takeWhile is_hex (h @ CHR ''L'' # r) = h" using a by (simp add: takeWhile_append2)
  moreover have "dropWhile is_hex (h @ CHR ''L'' # r) = CHR ''L'' # r"
    using a by (simp add: dropWhile_append2)
  ultimately show "match_hex prev s = Some n" using p h n by (auto simp: match_hex_def s)
qed

lemma match_long_tok:
  assumes "match_long prev s = Some n"
  shows "\<exists>lit r. s = lit @ CHR ''L'' # r \<and> n = length lit + 1 \<and> lit \<noteq> []
            \<and> CHR ''L'' \<notin> set lit \<and> is_digit (hd lit) \<and> is_hex (last lit)"
proof (cases "match_hex prev s")
  case None
  then have "match_dec s = Some n" using assms by (simp add: match_long_def)
  then obtain d r where s: "s = d @ CHR ''L'' # r" and d: "d \<noteq> []"
    and a: "\<forall>c\<in>set d. is_digit c" and n: "n = length d + 1"
    by (auto simp: match_dec_iff)
  have "CHR ''L'' \<notin> set d" using a by auto
  moreover have "is_digit (hd d)" "is_hex (last d)" using a d by (auto intro: digit_is_hex)
  ultimately show ?thesis using s d n by blast
next
  case (Some k)
  then have "match_hex prev s = Some n" using assms by (simp add: match_long_def)
  then obtain h r where s: "s = ''0x'' @ h @ CHR ''L'' # r" and h: "h \<noteq> []"
    and a: "\<forall>c\<in>set h. is_hex c" and n: "n = length h + 3"
    by (auto simp: match_hex_iff)
  let ?lit = "''0x'' @ h"
  have "CHR ''L'' \<notin> set ?lit" using a by auto
  moreover have "is_digit (hd ?lit)" by (simp add: is_digit_def)
  moreover have "is_hex (last ?lit)" using a h by simp
  moreover have "s = ?lit @ CHR ''L'' # r" "n = length ?lit + 1" using s n by simp_all
  ultimately show ?thesis by blast
qed

lemma match_long_take:
  assumes "match_long prev s = Some n"
  shows "is_tok (take n s)"
proof -
  from match_long_tok[OF assms] obtain lit r where s: "s = lit @ CHR ''L'' # r"
    and n: "n = length lit + 1" and l: "lit \<noteq> []" "CHR ''L'' \<notin> set lit"
    "is_digit (hd lit)" "is_hex (last lit)" by blast
  have "take n s = lit @ [CHR ''L'']" by (simp add: s n)
  then show ?thesis using l by (cases lit) (auto simp: is_tok_def)
qed

lemma re_split_longs_toks: "toks_ok (re_split_longs prev acc s)"
  by (induction prev acc s rule: re_split_longs.induct)
     (auto split: option.splits dest: match_long_take)

lemma no_hex_L_append:
  "no_hex_L (a @ b) \<longleftrightarrow>
     no_hex_L a \<and> no_hex_L b \<and> \<not> (a \<noteq> [] \<and> b \<noteq> [] \<and> is_hex (last a) \<and> hd b = CHR ''L'')"
proof (induction a)
  case Nil
  show ?case by simp
next
  case (Cons x a)
  show ?case
  proof (cases a)
    case Nil
    then show ?thesis by (cases b) auto
  next
    case (Cons y r)
    then show ?thesis using Cons.IH by auto
  qed
qed

lemma no_hex_L_tl: "no_hex_L (c # cs) \<Longrightarrow> no_hex_L cs"
  by (cases cs) auto

lemma no_L_no_hex_L: "CHR ''L'' \<notin> set s \<Longrightarrow> no_hex_L s"
  by (induction s rule: no_hex_L.induct) auto

lemma no_hex_L_no_match: "no_hex_L s \<Longrightarrow> match_long prev s = None"
proof (rule ccontr)
  assume n: "no_hex_L s" and "match_long prev s \<noteq> None"
  then obtain k where "match_long prev s = Some k" by auto
  from match_long_tok[OF this] obtain lit r where "s = lit @ CHR ''L'' # r" "lit \<noteq> []"
    "is_hex (last lit)" by blast
  then show False using n by (simp add: no_hex_L_append)
qed

lemma no_hex_L_split: "no_hex_L s \<Longrightarrow> re_split_longs prev acc s = [acc @ s]"
proof (induction s arbitrary: prev acc)
  case Nil
  show ?case by simp
next
  case (Cons c cs)
  have "match_long prev (c # cs) = None" using Cons.prems by (rule no_hex_L_no_match)
  moreover have "no_hex_L cs" using Cons.prems by (rule no_hex_L_tl)
  ultimately show ?case using Cons.IH[of "Some c" "acc @ [c]"] by simp
qed

lemma fix_str_settled:
  assumes "no_hex_L s" and "s = [] \<or> last s \<noteq> CHR ''L''"
  shows "fix_str s = s"
  using assms by (auto simp: fix_str_def no_hex_L_split fix_items_def strip_L_def)

lemma is_tok_strip:
  assumes "is_tok m"
  shows "strip_L m = butlast m" and "butlast m \<noteq> []" and "no_hex_L (butlast m)"
    and "hd (butlast m) \<noteq> CHR ''L''" and "last (butlast m) \<noteq> CHR ''L''"
proof -
  from assms have l: "1 < length m" and e: "last m = CHR ''L''"
    and n: "CHR ''L'' \<notin> set (butlast m)" and d: "is_digit (hd m)"
    and h: "is_hex (last (butlast m))" by (auto simp: is_tok_def)
  show "strip_L m = butlast m" using l e by (simp add: strip_L_def)
  show b: "butlast m \<noteq> []" using l by (cases m) auto
  show "no_hex_L (butlast m)" using n by (rule no_L_no_hex_L)
  have "hd (butlast m) = hd m" using l by (cases m) auto
  then show "hd (butlast m) \<noteq> CHR ''L''" using d by auto
  show "last (butlast m) \<noteq> CHR ''L''" using h by auto
qed

lemma quiet_fix_items:
  assumes "toks_ok sl" and "quiet after sl"
  shows "no_hex_L (fix_items sl)
         \<and> (fix_items sl = [] \<or> last (fix_items sl) \<noteq> CHR ''L'')
         \<and> (after \<longrightarrow> fix_items sl = [] \<or> hd (fix_items sl) \<noteq> CHR ''L'')"
  using assms
proof (induction sl arbitrary: after rule: toks_ok.induct)
  case (1 p m rest)
  from "1.prems" have tk: "is_tok m" and tr: "toks_ok rest"
    and pk: "piece_ok after p" and qr: "quiet True rest" by auto
  define lit where "lit = butlast m"
  define out where "out = fix_items rest"
  note s = is_tok_strip[OF tk, folded lit_def]
  from "1.IH"[OF tr qr] have o: "no_hex_L out" "out = [] \<or> last out \<noteq> CHR ''L''"
    "out = [] \<or> hd out \<noteq> CHR ''L''" by (auto simp: out_def)
  from pk have p: "no_hex_L p" "p = [] \<or> last p \<noteq> CHR ''L''"
    "after \<longrightarrow> p = [] \<or> hd p \<noteq> CHR ''L''" by (auto simp: piece_ok_def)
  have sp: "strip_L p = p" using p(2) by (auto simp: strip_L_def)
  have f: "fix_items (p # m # rest) = p @ lit @ out"
    by (simp add: fix_items_def sp s(1) out_def)
  have a: "no_hex_L (lit @ out)" using s o by (auto simp: no_hex_L_append)
  have "no_hex_L (p @ lit @ out)" using a p(1) s(2,4) by (auto simp: no_hex_L_append)
  moreover have "last (p @ lit @ out) \<noteq> CHR ''L''"
    using o(2) s(2,5) by (cases "out = []") auto
  moreover have "after \<longrightarrow> hd (p @ lit @ out) \<noteq> CHR ''L''"
    using p(3) s(2,4) by (cases p) auto
  ultimately show ?case unfolding f by blast
next
  case (2 p)
  then have p: "no_hex_L p" "p = [] \<or> last p \<noteq> CHR ''L''"
    "after \<longrightarrow> p = [] \<or> hd p \<noteq> CHR ''L''" by (auto simp: piece_ok_def)
  have "fix_items [p] = p" using p(2) by (auto simp: fix_items_def strip_L_def)
  then show ?case using p by simp
next
  case 3
  then show ?case by simp
qed

lemma quiet_fix_str:
  assumes "quiet False (re_split_longs None [] s)"
  shows "fix_str (fix_str s) = fix_str s"
proof -
  have "no_hex_L (fix_str s) \<and> (fix_str s = [] \<or> last (fix_str s) \<noteq> CHR ''L'')"
    using quiet_fix_items[OF re_split_longs_toks assms] by (simp add: fix_str_def)
  then show ?thesis by (intro fix_str_settled) auto
qed

lemma fixOutput_Str: "resolve_elem (split_elem_of (Str s)) = Str (fix_str s)"
  by (simp add: resolve_elem_def split_elem_of_def fix_str_def)



lemma dropWhile_run:
  assumes "\<forall>c\<in>set xs. P c" and "\<not> P y"
  shows "dropWhile P (xs @ y # ys) = y # ys"
  using assms by (induction xs) auto


























section \<open>Facts about \<^verbatim>\<open>str.replace\<close>\<close>

lemma str_replace_absent: "\<not> sublist tok y \<Longrightarrow> str_replace tok new y = y"
proof (induction y)
  case Nil
  show ?case by simp
next
  case (Cons c cs)
  have "\<not> prefix tok (c # cs)" using Cons.prems by (auto dest: prefix_imp_sublist)
  moreover have "\<not> sublist tok cs" using Cons.prems by (auto simp: sublist_Cons_right)
  ultimately show ?case using Cons.IH by simp
qed

lemma end_marked_no_overlap:
  assumes em: "end_marked tok" and x: "x \<noteq> []" and ns: "\<not> sublist tok x"
  shows "\<not> prefix tok (x @ tok @ r)"
proof
  assume "prefix tok (x @ tok @ r)"
  then obtain w where eq: "x @ tok @ r = tok @ w" by (auto simp: prefix_def)
  define t where "t = butlast tok"
  define z where "z = last tok"
  have tok: "tok = t @ [z]" and z: "z \<notin> set t"
    using em by (auto simp: end_marked_def t_def z_def)
  show False
  proof (cases "length tok \<le> length x")
    case True
    then have "prefix tok x" using eq
      by (metis append_eq_append_conv_if prefix_def append_take_drop_id)
    then show False using ns by (auto dest: prefix_imp_sublist)
  next
    case False
    then have lx: "length x \<le> length t" by (simp add: tok)
    have "(x @ tok @ r) ! length t = (tok @ w) ! length t" using eq by simp
    moreover have "(tok @ w) ! length t = z" by (simp add: tok)
    moreover have d: "length t - length x < length t"
      using lx x by (cases x) auto
    moreover have "(x @ tok @ r) ! length t = t ! (length t - length x)"
      using lx d by (simp add: nth_append tok)
    moreover have "t ! (length t - length x) \<in> set t"
      using d by (rule nth_mem)
    ultimately show False using z by simp
  qed
qed

lemma str_replace_step:
  assumes em: "end_marked tok" and ns: "\<not> sublist tok x"
  shows "str_replace tok [] (x @ tok @ r) = x @ str_replace tok [] r"
  using ns
proof (induction x)
  case Nil
  obtain c cs where tc: "tok = c # cs" using em by (cases tok) (auto simp: end_marked_def)
  show ?case by (simp add: tc)
next
  case (Cons c cs)
  have "\<not> prefix tok ((c # cs) @ tok @ r)"
    using em Cons.prems by (intro end_marked_no_overlap) auto
  moreover have "\<not> sublist tok cs" using Cons.prems by (auto simp: sublist_Cons_right)
  ultimately show ?case using Cons.IH by simp
qed

lemma str_replace_global:
  assumes em: "end_marked tok" and xs: "\<forall>x\<in>set xs. \<not> sublist tok x" and y: "\<not> sublist tok y"
  shows "str_replace tok [] (concat (map (\<lambda>x. x @ tok) xs) @ y) = concat xs @ y"
  using xs
proof (induction xs)
  case Nil
  show ?case using y by (simp add: str_replace_absent)
next
  case (Cons x xs)
  then show ?case using str_replace_step[OF em, of x "concat (map (\<lambda>x. x @ tok) xs) @ y"] by simp
qed

section \<open>Facts about the catalogue\<close>

lemma getmembers_names:
  "map fst (getmembers predicate ob) =
     filter (\<lambda>n. \<exists>v. map_of ob n = Some v \<and> predicate v) (dir_names ob)"
proof -
  have "map fst (concat (map (\<lambda>n. case map_of ob n of
                          Some v \<Rightarrow> if predicate v then [(n, v)] else []
                        | None \<Rightarrow> []) ns))
        = filter (\<lambda>n. \<exists>v. map_of ob n = Some v \<and> predicate v) ns" for ns
    by (induction ns) (auto split: option.splits)
  then show ?thesis by (simp add: getmembers_def)
qed

lemma methods_eq:
  "methods self = filter (\<lambda>n. map_of self n = Some Method \<and> prefix ''test_'' n) (dir_names self)"
proof -
  have "map fst (filter (\<lambda>(methodname, _). prefix ''test_'' methodname) ps)
        = filter (prefix ''test_'') (map fst ps)" for ps :: "(string \<times> member) list"
    by (induction ps) auto
  then have "methods self = filter (prefix ''test_'') (map fst (getmembers ismethod self))"
    by (simp add: methods_def)
  also have "\<dots> = filter (\<lambda>n. map_of self n = Some Method \<and> prefix ''test_'' n) (dir_names self)"
    by (simp add: getmembers_names ismethod_def conj_commute)
  finally show ?thesis .
qed

section \<open>Facts about the split on the set notation\<close>

lemma re_split_set_odd: "odd (length (re_split_set adv seen acc rest))"
proof (induction adv seen acc rest rule: re_split_set.induct)
  case (1 adv seen acc rest)
  show ?case
  proof (cases "match_set adv seen rest")
    case None
    show ?thesis
    proof (cases rest)
      case Nil
      then show ?thesis using None by (subst re_split_set.simps) simp
    next
      case (Cons c cs)
      then show ?thesis using None "1.IH"(1)[OF None Cons]
        by (subst re_split_set.simps) simp
    qed
  next
    case (Some k)
    then show ?thesis using "1.IH"(2)[OF Some] by (subst re_split_set.simps) simp
  qed
qed

lemma last_close_prefix: "last_close l = Some k \<Longrightarrow> prefix set_close (drop k l)"
  by (induction l arbitrary: k) (auto split: option.splits if_splits)

lemma last_close_None: "last_close l = None \<longleftrightarrow> \<not> sublist set_close l"
  by (induction l) (auto simp: sublist_Cons_right set_close_def split: option.splits)

lemma match_set_shape:
  assumes "match_set adv seen rest = Some k"
  shows "has_shape (rev seen @ rest)"
proof -
  define l where "l = takeWhile (\<lambda>c. c \<noteq> CHR 0x0A) rest"
  from assms have p: "prefix (rev set_open) seen" and c: "last_close l = Some k"
    by (auto simp: match_set_def l_def split: if_splits option.splits)
  from p obtain z where "seen = rev set_open @ z" by (auto simp: prefix_def)
  then have s: "rev seen = rev z @ set_open" by simp
  from last_close_prefix[OF c] obtain t where "drop k l = set_close @ t" by (auto simp: prefix_def)
  then have "l = take k l @ set_close @ t" by (metis append_take_drop_id)
  moreover have "rest = l @ dropWhile (\<lambda>c. c \<noteq> CHR 0x0A) rest" by (simp add: l_def)
  ultimately have "rest = take k l @ set_close @ (t @ dropWhile (\<lambda>c. c \<noteq> CHR 0x0A) rest)"
    by (metis append_assoc)
  then have "rev seen @ rest
             = rev z @ set_open @ take k l @ set_close @ (t @ dropWhile (\<lambda>c. c \<noteq> CHR 0x0A) rest)"
    using s by simp
  then show ?thesis unfolding has_shape_def by blast
qed

lemma no_shape_split:
  "\<not> has_shape (rev seen @ rest) \<Longrightarrow> re_split_set adv seen acc rest = [acc @ rest]"
proof (induction rest arbitrary: adv seen acc)
  case Nil
  then have "match_set adv seen [] = None" using match_set_shape[of adv seen "[]"] by fastforce
  then show ?case by (subst re_split_set.simps) simp
next
  case (Cons c cs)
  have "match_set adv seen (c # cs) = None"
    using Cons.prems match_set_shape[of adv seen "c # cs"] by fastforce
  moreover have "re_split_set False (c # seen) (acc @ [c]) cs = [(acc @ [c]) @ cs]"
    using Cons.prems by (intro Cons.IH) simp
  ultimately show ?case by (subst re_split_set.simps) simp
qed

lemma end_marked_border:
  assumes em: "end_marked tok" and t: "tok = x @ y" and y: "y \<noteq> []" and x: "x \<noteq> []"
  shows "last x \<noteq> last tok"
proof -
  have "butlast tok = x @ butlast y" using t y by (simp add: butlast_append)
  then have "last x \<in> set (butlast tok)" using x by simp
  then show ?thesis using em by (auto simp: end_marked_def)
qed

lemma end_marked_suffix:
  assumes em: "end_marked tok" and s: "suffix tok (w @ tok @ y)"
  shows "y = [] \<or> suffix tok y"
proof (rule ccontr)
  assume n: "\<not> (y = [] \<or> suffix tok y)"
  have "suffix tok ((w @ tok) @ y)" using s by simp
  then obtain x where t: "tok = x @ y" and sx: "suffix x (w @ tok)"
    using n unfolding suffix_append by blast
  have x: "x \<noteq> []" using t n by auto
  from sx obtain z where "w @ tok = z @ x" by (auto simp: suffix_def)
  then have "last (w @ tok) = last (z @ x)" by simp
  moreover have "tok \<noteq> []" using em by (simp add: end_marked_def)
  ultimately have "last tok = last x" using x by simp
  moreover have "last x \<noteq> last tok" using em t _ x by (rule end_marked_border) (use n in simp)
  ultimately show False by simp
qed

lemma set_open_marked: "end_marked set_open"
  by (simp add: end_marked_def set_open_def)

lemma unseen_prefix:
  assumes P: "\<not> sublist set_open P" and e: "P @ set_open = x @ y" and y: "y \<noteq> []"
  shows "\<not> suffix set_open x"
proof
  assume "suffix set_open x"
  then obtain z where x: "x = z @ set_open" by (auto simp: suffix_def)
  have "suffix set_open (P @ set_open)" by (simp add: suffix_def)
  then have "suffix set_open (z @ set_open @ y)" using e x by simp
  then have "suffix set_open y" using end_marked_suffix[OF set_open_marked] y by blast
  then obtain w where "y = w @ set_open" by (auto simp: suffix_def)
  then have "P @ set_open = (z @ set_open @ w) @ set_open" using e x by simp
  then have "P = z @ set_open @ w" by (simp only: append_same_eq)
  then show False using P by (auto simp: sublist_def)
qed

lemma skip_unseen:
  assumes "\<forall>x y. u = x @ y \<and> y \<noteq> [] \<longrightarrow> \<not> suffix set_open (rev seen @ x)" and "u \<noteq> []"
  shows "re_split_set adv seen acc (u @ rest) = re_split_set False (rev u @ seen) (acc @ u) rest"
  using assms
proof (induction u arbitrary: adv seen acc)
  case Nil
  then show ?case by simp
next
  case (Cons c u)
  have "\<not> suffix set_open (rev seen @ [])" using Cons.prems(1) by blast
  then have "\<not> prefix (rev set_open) seen" by (simp add: suffix_to_prefix)
  then have m: "match_set adv seen ((c # u) @ rest) = None" by (simp add: match_set_def)
  have s: "re_split_set adv seen acc ((c # u) @ rest)
           = re_split_set False (c # seen) (acc @ [c]) (u @ rest)"
    using m by (subst re_split_set.simps) simp
  show ?case
  proof (cases "u = []")
    case True
    then show ?thesis using s by simp
  next
    case False
    have "\<forall>x y. u = x @ y \<and> y \<noteq> [] \<longrightarrow> \<not> suffix set_open (rev (c # seen) @ x)"
    proof (intro allI impI)
      fix x y assume "u = x @ y \<and> y \<noteq> []"
      then have "c # u = (c # x) @ y \<and> y \<noteq> []" by simp
      then have "\<not> suffix set_open (rev seen @ (c # x))" using Cons.prems(1) by blast
      then show "\<not> suffix set_open (rev (c # seen) @ x)" by simp
    qed
    then have "re_split_set False (c # seen) (acc @ [c]) (u @ rest)
               = re_split_set False (rev u @ c # seen) ((acc @ [c]) @ u) rest"
      using False by (rule Cons.IH)
    then show ?thesis using s by simp
  qed
qed

lemma last_close_append:
  "last_close v = Some k \<Longrightarrow> last_close (u @ v) = Some (length u + k)"
  by (induction u) auto

lemma last_close_here:
  assumes "\<not> sublist set_close q"
  shows "last_close (set_close @ q) = Some 0"
proof -
  have "\<not> sublist set_close (CHR '')'' # CHR ''>'' # q)"
    using assms by (simp add: sublist_Cons_right set_close_def)
  then have "last_close (CHR '')'' # CHR ''>'' # q) = None"
    by (rule last_close_None[THEN iffD2])
  then show ?thesis by (simp add: set_close_def)
qed

lemma takeWhile_line:
  assumes "CHR 0x0A \<notin> set body"
  shows "takeWhile (\<lambda>c. c \<noteq> CHR 0x0A) (body @ set_close @ Q)
         = body @ set_close @ takeWhile (\<lambda>c. c \<noteq> CHR 0x0A) Q"
  using assms by (induction body) (auto simp: set_close_def)

lemma no_close_line:
  assumes "\<not> sublist set_close Q"
  shows "\<not> sublist set_close (takeWhile (\<lambda>c. c \<noteq> CHR 0x0A) Q)"
proof
  assume "sublist set_close (takeWhile (\<lambda>c. c \<noteq> CHR 0x0A) Q)"
  then obtain ps ss where "takeWhile (\<lambda>c. c \<noteq> CHR 0x0A) Q = ps @ set_close @ ss"
    by (auto simp: sublist_def)
  then have "Q = ps @ set_close @ (ss @ dropWhile (\<lambda>c. c \<noteq> CHR 0x0A) Q)"
    using takeWhile_dropWhile_id[of "\<lambda>c. c \<noteq> CHR 0x0A" Q] by (metis append_assoc)
  then show False using assms unfolding sublist_def by blast
qed

lemma match_set_body:
  assumes b: "CHR 0x0A \<notin> set body" and Q: "\<not> sublist set_close Q"
    and p: "prefix (rev set_open) seen"
  shows "match_set adv seen (body @ set_close @ Q)
         = (if adv \<and> body = [] then None else Some (length body))"
proof -
  let ?Q1 = "takeWhile (\<lambda>c. c \<noteq> CHR 0x0A) Q"
  have "last_close (set_close @ ?Q1) = Some 0" using Q by (intro last_close_here no_close_line)
  then have "last_close (body @ set_close @ ?Q1) = Some (length body + 0)"
    by (rule last_close_append)
  then have "last_close (takeWhile (\<lambda>c. c \<noteq> CHR 0x0A) (body @ set_close @ Q)) = Some (length body)"
    using b by (simp add: takeWhile_line)
  then show ?thesis using p by (simp add: match_set_def)
qed

lemma no_close_split:
  "\<not> sublist set_close r \<Longrightarrow> re_split_set adv seen acc r = [acc @ r]"
proof (induction r arbitrary: adv seen acc)
  case Nil
  have "match_set adv seen [] = None" by (simp add: match_set_def)
  then show ?case by (subst re_split_set.simps) simp
next
  case (Cons c cs)
  have "last_close (takeWhile (\<lambda>c. c \<noteq> CHR 0x0A) (c # cs)) = None"
    using Cons.prems by (intro last_close_None[THEN iffD2] no_close_line)
  then have "match_set adv seen (c # cs) = None" by (simp add: match_set_def)
  moreover have "\<not> sublist set_close cs" using Cons.prems by (simp add: sublist_Cons_right)
  then have "re_split_set False (c # seen) (acc @ [c]) cs = [(acc @ [c]) @ cs]"
    by (rule Cons.IH)
  ultimately show ?case by (subst re_split_set.simps) simp
qed

lemma after_body:
  assumes b: "CHR 0x0A \<notin> set body" and Q: "\<not> sublist set_close Q"
    and e: "\<not> suffix set_open (P @ set_open @ body) \<or> body = []"
  shows "re_split_set (body = []) (rev (P @ set_open @ body)) [] (set_close @ Q)
         = [set_close @ Q]"
proof -
  let ?seen = "rev (P @ set_open @ body)"
  have m: "match_set (body = []) ?seen (set_close @ Q) = None"
  proof (cases "body = []")
    case True
    have "match_set True (rev (P @ set_open)) ([] @ set_close @ Q) = None"
      by (subst match_set_body) (use Q in auto)
    then show ?thesis using True by simp
  next
    case False
    then have "\<not> suffix set_open (P @ set_open @ body)" using e by simp
    then have "\<not> prefix (rev set_open) ?seen" unfolding suffix_to_prefix .
    then show ?thesis by (simp add: match_set_def)
  qed
  have c: "set_close @ Q = CHR '']'' # CHR '')'' # CHR ''>'' # Q" by (simp add: set_close_def)
  have "\<not> sublist set_close (CHR '')'' # CHR ''>'' # Q)"
    using Q by (simp add: sublist_Cons_right set_close_def)
  then have "re_split_set False (CHR '']'' # ?seen) ([] @ [CHR '']'']) (CHR '')'' # CHR ''>'' # Q)
             = [([] @ [CHR '']'']) @ CHR '')'' # CHR ''>'' # Q]"
    by (rule no_close_split)
  moreover have "match_set (body = []) ?seen (CHR '']'' # CHR '')'' # CHR ''>'' # Q) = None"
    using m unfolding c .
  ultimately have "re_split_set (body = []) ?seen [] (CHR '']'' # CHR '')'' # CHR ''>'' # Q)
                   = [CHR '']'' # CHR '')'' # CHR ''>'' # Q]"
    by (subst re_split_set.simps) simp
  then show ?thesis unfolding c .
qed

lemma body_suffix:
  assumes "\<not> suffix set_open body" and "body \<noteq> []"
  shows "\<not> suffix set_open (P @ set_open @ body)"
proof
  assume "suffix set_open (P @ set_open @ body)"
  then have "body = [] \<or> suffix set_open body"
    using end_marked_suffix[OF set_open_marked] by blast
  then show False using assms by simp
qed

lemma re_split_set_shape:
  assumes P: "\<not> sublist set_open P" and Q: "\<not> sublist set_close Q"
    and b: "CHR 0x0A \<notin> set body" and e: "\<not> suffix set_open body"
  shows "re_split_set False [] [] (P @ set_open @ body @ set_close @ Q)
         = [P @ set_open, body, set_close @ Q]"
proof -
  have "\<forall>x y. P @ set_open = x @ y \<and> y \<noteq> [] \<longrightarrow> \<not> suffix set_open (rev [] @ x)"
    using unseen_prefix[OF P] by simp
  moreover have "P @ set_open \<noteq> []" by (simp add: set_open_def)
  ultimately have 1: "re_split_set False [] [] ((P @ set_open) @ body @ set_close @ Q)
      = re_split_set False (rev (P @ set_open) @ []) ([] @ P @ set_open) (body @ set_close @ Q)"
    by (rule skip_unseen)
  have 2: "match_set False (rev (P @ set_open)) (body @ set_close @ Q) = Some (length body)"
    by (subst match_set_body) (use b Q in auto)
  have "\<not> suffix set_open (P @ set_open @ body) \<or> body = []"
    using body_suffix[OF e] by blast
  with b Q have 3: "re_split_set (body = []) (rev (P @ set_open @ body)) [] (set_close @ Q)
         = [set_close @ Q]"
    by (rule after_body)
  have "re_split_set False (rev (P @ set_open)) (P @ set_open) (body @ set_close @ Q)
        = (P @ set_open) # body # re_split_set (body = []) (rev body @ rev (P @ set_open)) []
                                      (set_close @ Q)"
    using 2 by (subst re_split_set.simps) simp
  then show ?thesis using 1 3 by simp
qed

lemma split_comma_single: "\<not> sublist '', '' m \<Longrightarrow> split_comma m = [m]"
proof (induction m rule: split_comma.induct)
  case 1
  show ?case by simp
next
  case (2 c)
  show ?case by simp
next
  case (3 c d cs)
  have n: "\<not> (c = CHR '','' \<and> d = CHR '' '')" using "3.prems" by (auto simp: sublist_Cons_right)
  have "\<not> sublist '', '' (d # cs)" using "3.prems" by (simp add: sublist_Cons_right)
  then have "split_comma (d # cs) = [d # cs]" using n "3.IH" by blast
  then show ?case using n by simp
qed

lemma split_comma_member:
  "\<not> sublist '', '' m \<Longrightarrow> split_comma (m @ '', '' @ r) = m # split_comma r"
proof (induction m rule: split_comma.induct)
  case 1
  show ?case by simp
next
  case (2 c)
  show ?case by simp
next
  case (3 c d cs)
  have n: "\<not> (c = CHR '','' \<and> d = CHR '' '')" using "3.prems" by (auto simp: sublist_Cons_right)
  have "\<not> sublist '', '' (d # cs)" using "3.prems" by (simp add: sublist_Cons_right)
  then have "split_comma ((d # cs) @ '', '' @ r) = (d # cs) # split_comma r"
    using n "3.IH" by blast
  then show ?case using n by simp
qed

lemma split_comma_join:
  assumes "\<forall>m\<in>set ms. \<not> sublist '', '' m" and "ms \<noteq> []"
  shows "split_comma (join '', '' ms) = ms"
  using assms
proof (induction "'', ''" ms rule: join.induct)
  case 1
  then show ?case by simp
next
  case (2 x)
  then show ?case by (simp add: split_comma_single)
next
  case (3 x y ys)
  then have "split_comma (join '', '' (y # ys)) = y # ys" by simp
  moreover have "\<not> sublist '', '' x" using "3.prems" by simp
  ultimately show ?case using split_comma_member[of x "join '', '' (y # ys)"] by simp
qed

lemma sorted_members:
  assumes "\<forall>m\<in>set ms. \<not> sublist '', '' m"
  shows "join '', '' (sort (split_comma (join '', '' ms))) = join '', '' (sort ms)"
proof (cases "ms = []")
  case True
  then show ?thesis by simp
next
  case False
  then show ?thesis using assms by (simp add: split_comma_join)
qed

lemma join_no_newline:
  "\<forall>m\<in>set ms. CHR 0x0A \<notin> set m \<Longrightarrow> CHR 0x0A \<notin> set (join '', '' ms)"
  by (induction "'', ''" ms rule: join.induct) auto

lemma fixSet_members:
  assumes P: "\<not> sublist set_open P" and Q: "\<not> sublist set_close Q"
    and m: "\<forall>m\<in>set ms. \<not> sublist '', '' m \<and> CHR 0x0A \<notin> set m"
    and e: "\<not> suffix set_open (join '', '' ms)"
  shows "fixSet (P @ set_open @ join '', '' ms @ set_close @ Q)
         = P @ set_open @ join '', '' (sort ms) @ set_close @ Q"
proof -
  have "CHR 0x0A \<notin> set (join '', '' ms)" using m by (intro join_no_newline) simp
  with P Q have "re_split_set False [] [] (P @ set_open @ join '', '' ms @ set_close @ Q)
         = [P @ set_open, join '', '' ms, set_close @ Q]"
    using e by (rule re_split_set_shape)
  moreover have "join '', '' (sort (split_comma (join '', '' ms))) = join '', '' (sort ms)"
    using m by (intro sorted_members) simp
  ultimately show ?thesis by (simp add: fixSet_def)
qed

section \<open>Facts about the fixtures\<close>





section \<open>The claims\<close>

subsection \<open>Numeric-literal suffix normalisation\<close>

text \<open>
  Claim C1, as stated, fails: in \<^verbatim>\<open>5LL\<close> the first pass strips the suffix of \<^verbatim>\<open>5L\<close> and
  leaves \<^verbatim>\<open>5L\<close>, from which a second pass strips again.
\<close>

theorem fixOutput_twice_counterexample:
  "fixOutput (fixOutput [Str ''5LL'']) \<noteq> (fixOutput [Str ''5LL''] :: unit elem list)"
  by (simp add: fixOutput_def split_elem_of_def resolve_elem_def fix_items_def strip_L_def
      match_long_def match_hex_def match_dec_def is_hex_def is_digit_def)

text \<open>
  Claim C1, amended. \<open>fixOutput\<close> is idempotent on every sequence whose elements are
  quiet: values that are neither strings nor lists, and strings in which the text the
  pattern leaves unmatched has no \<^verbatim>\<open>L\<close> directly after a character of \<^verbatim>\<open>[0-9a-f]\<close>, does
  not end in \<^verbatim>\<open>L\<close>, and does not begin with \<^verbatim>\<open>L\<close> directly after a matched literal.
\<close>

theorem fixOutput_idempotent_quiet:
  assumes "\<forall>e \<in> set S. quiet_elem e"
  shows "fixOutput (fixOutput S) = fixOutput S"
proof -
  have "resolve_elem (split_elem_of (resolve_elem (split_elem_of e))) = resolve_elem (split_elem_of e)"
    if "quiet_elem e" for e :: "'a elem"
  proof (cases e)
    case (Str s)
    then have "quiet False (re_split_longs None [] s)" using that by (simp add: quiet_elem_def)
    then show ?thesis by (simp add: Str fixOutput_Str quiet_fix_str)
  next
    case (StrList items)
    then show ?thesis using that by (simp add: quiet_elem_def)
  next
    case (Other x)
    then show ?thesis by (simp add: resolve_elem_def split_elem_of_def)
  qed
  then show ?thesis using assms by (simp add: fixOutput_def)
qed

text \<open>A line of the kind the harness prints, and a value that is not a string.\<close>

theorem fixOutput_idempotent_quiet_witness:
  "fixOutput (fixOutput [Str ''LLIL block [0x1fL, 5L] at 0x10L'', Other (7::nat)])
     = fixOutput [Str ''LLIL block [0x1fL, 5L] at 0x10L'', Other 7]
   \<and> fixOutput [Str ''LLIL block [0x1fL, 5L] at 0x10L'', Other (7::nat)]
     = [Str ''LLIL block [0x1f, 5] at 0x10'', Other 7]"
proof -
  have "\<forall>e \<in> set [Str ''LLIL block [0x1fL, 5L] at 0x10L'', Other (7::nat)]. quiet_elem e"
    by (simp add: quiet_elem_def piece_ok_def match_long_def match_hex_def match_dec_def
        is_hex_def is_digit_def)
  then have "fixOutput (fixOutput [Str ''LLIL block [0x1fL, 5L] at 0x10L'', Other (7::nat)])
     = fixOutput [Str ''LLIL block [0x1fL, 5L] at 0x10L'', Other 7]"
    by (rule fixOutput_idempotent_quiet)
  moreover have "fixOutput [Str ''LLIL block [0x1fL, 5L] at 0x10L'', Other (7::nat)]
     = [Str ''LLIL block [0x1f, 5] at 0x10'', Other 7]"
    by (simp add: fixOutput_def split_elem_of_def resolve_elem_def fix_items_def strip_L_def
      match_long_def match_hex_def match_dec_def is_hex_def is_digit_def)
  ultimately show ?thesis by (rule conjI)
qed




text \<open>
  Claim C8. The two inputs of the specification behave as it says.
\<close>

lemma fixOutput_spec_examples:
  "fixOutput [Str ''[0x10L, 5L]''] = [Str ''[0x10, 5]'' :: unit elem]
   \<and> fixOutput [Str ''no literals here''] = [Str ''no literals here'' :: unit elem]"
  by (simp add: fixOutput_def split_elem_of_def resolve_elem_def fix_items_def strip_L_def
      match_long_def match_hex_def match_dec_def is_hex_def is_digit_def)

text \<open>
  What the code does to a string in which the pattern matches nothing: the split list is
  the string itself, and the second loop applies its test to it.
\<close>

lemma fixOutput_no_literal:
  "re_split_longs None [] s = [s] \<Longrightarrow> fixOutput [Str s] = [Str (strip_L s)]"
  by (simp add: fixOutput_def split_elem_of_def resolve_elem_def fix_items_def)

text \<open>
  Claim C8, the general part: the code does not leave every string without a suffixed
  literal unchanged. In \<^verbatim>\<open>NULL\<close> the pattern matches nothing, the split list is the string
  itself, and the second loop strips its last letter.
\<close>

theorem fixOutput_unmatched_stripped:
  "re_split_longs None [] ''NULL'' = [''NULL'']
   \<and> fixOutput [Str ''NULL''] = [Str ''NUL'' :: unit elem]"
  by (simp add: fixOutput_def split_elem_of_def resolve_elem_def fix_items_def strip_L_def
      match_long_def match_hex_def match_dec_def is_hex_def is_digit_def)

text \<open>
  The hexadecimal branch needs \<^verbatim>\<open>L\<close> directly after a run of characters of \<^verbatim>\<open>[0-9a-f]\<close>:
  a run that meets any other character first, an upper-case digit for one, is no match.
\<close>

lemma match_hex_interrupted:
  assumes "\<forall>x\<in>set h. is_hex x" and "\<not> is_hex c" and "c \<noteq> CHR ''L''"
  shows "match_hex prev (''0x'' @ h @ c # r) = None"
proof -
  have "takeWhile is_hex (h @ c # r) = h" using assms(1,2) by (induction h) auto
  moreover have "dropWhile is_hex (h @ c # r) = c # r" using assms(1,2) by (rule dropWhile_run)
  ultimately show ?thesis using assms(3) by (simp add: match_hex_def)
qed

text \<open>
  Claim C10. The hexadecimal branch does not match a literal with an upper-case digit:
  neither branch matches in \<^verbatim>\<open>[0xABL\<close>. The suffix is stripped all the same, by the second
  loop, as the string ends in it.
\<close>

theorem fixOutput_uppercase_stripped:
  "match_hex (Some CHR ''['') ''0xABL'' = None
   \<and> re_split_longs None [] ''[0xABL'' = [''[0xABL'']
   \<and> fixOutput [Str ''[0xABL''] = [Str ''[0xAB'' :: unit elem]
   \<and> fixOutput [Str ''[0xABL]''] = [Str ''[0xABL]'' :: unit elem]"
  by (simp add: fixOutput_def split_elem_of_def resolve_elem_def fix_items_def strip_L_def
      match_long_def match_hex_def match_dec_def is_hex_def is_digit_def)

subsection \<open>Set-notation ordering\<close>

text \<open>
  Claim C9. On every string that does not hold \<^verbatim>\<open><in set([\<close> followed, anywhere later, by
  \<^verbatim>\<open>])>\<close>, \<open>fixSet\<close> is the identity.
\<close>

theorem fixSet_identity:
  assumes "\<not> (\<exists>a b c. s = a @ ''<in set(['' @ b @ ''])>'' @ c)"
  shows "fixSet s = s"
proof -
  have "\<not> has_shape (rev [] @ s)" using assms by (simp add: has_shape_def set_open_def set_close_def)
  then have "re_split_set False [] [] s = [[] @ s]" by (rule no_shape_split)
  then show ?thesis by (simp add: fixSet_def)
qed

text \<open>The opening delimiter alone is not the shape.\<close>

theorem fixSet_identity_witness:
  "fixSet ''value <in set([0x2, 0x1'' = ''value <in set([0x2, 0x1''"
proof -
  have "\<not> (\<exists>a b c. ''value <in set([0x2, 0x1'' = a @ ''<in set(['' @ b @ ''])>'' @ c)"
  proof
    assume "\<exists>a b c. ''value <in set([0x2, 0x1'' = a @ ''<in set(['' @ b @ ''])>'' @ c"
    then obtain a b c where "''value <in set([0x2, 0x1'' = a @ ''<in set(['' @ b @ ''])>'' @ c"
      by blast
    then have "set ''value <in set([0x2, 0x1'' = set (a @ ''<in set(['' @ b @ ''])>'' @ c)"
      by (rule arg_cong)
    then have "CHR '')'' \<in> set ''value <in set([0x2, 0x1''" by (simp del: set_simps) auto
    then show False by simp
  qed
  then show ?thesis by (rule fixSet_identity)
qed

text \<open>
  Claim C3, as stated, fails: the two strings differ only in the order of the members
  \<^verbatim>\<open>a\<close> and \<^verbatim>\<open>b\<close> of their first set, but a second set follows on the same line; the
  greedy \<^verbatim>\<open>.*\<close> runs to the last \<^verbatim>\<open>])>\<close>, the text up to it is split and sorted with the
  members, and the results differ.
\<close>

theorem fixSet_greedy_counterexample:
  "fixSet ''<in set([b, a])> <in set([c])>'' = ''<in set([a])> <in set([c, b])>''
   \<and> fixSet ''<in set([a, b])> <in set([c])>'' = ''<in set([a, b])> <in set([c])>''"
  by (simp add: fixSet_def re_split_set.simps match_set_def set_open_def set_close_def)

text \<open>
  Claim C3, amended. Let the prefix hold no \<^verbatim>\<open><in set([\<close>, the suffix no \<^verbatim>\<open>])>\<close>, the
  members neither \<^verbatim>\<open>", "\<close> nor a newline, and let neither member list, joined, end in
  \<^verbatim>\<open><in set([\<close>. Then for member lists that are permutations of each other \<open>fixSet\<close>
  returns the same string: the prefix, the opening delimiter, the sorted members joined
  with \<^verbatim>\<open>", "\<close>, the closing delimiter and the suffix.
\<close>

theorem fixSet_order_independent:
  assumes "\<not> sublist ''<in set(['' P" and "\<not> sublist ''])>'' Q"
    and "mset ms' = mset ms"
    and "\<forall>m\<in>set ms. \<not> sublist '', '' m \<and> CHR 0x0A \<notin> set m"
    and "\<not> suffix ''<in set(['' (join '', '' ms)"
    and "\<not> suffix ''<in set(['' (join '', '' ms')"
  shows "fixSet (P @ ''<in set(['' @ join '', '' ms' @ ''])>'' @ Q)
           = fixSet (P @ ''<in set(['' @ join '', '' ms @ ''])>'' @ Q)
         \<and> fixSet (P @ ''<in set(['' @ join '', '' ms @ ''])>'' @ Q)
           = P @ ''<in set(['' @ join '', '' (sort ms) @ ''])>'' @ Q"
proof -
  have s: "set ms' = set ms" using assms(3) by (rule mset_eq_setD)
  have "sort ms' = sort ms" using assms(3) by (intro properties_for_sort) simp_all
  moreover have "fixSet (P @ set_open @ join '', '' ms @ set_close @ Q)
         = P @ set_open @ join '', '' (sort ms) @ set_close @ Q"
    using assms by (intro fixSet_members) (simp_all add: set_open_def set_close_def)
  moreover have "fixSet (P @ set_open @ join '', '' ms' @ set_close @ Q)
         = P @ set_open @ join '', '' (sort ms') @ set_close @ Q"
    using assms s by (intro fixSet_members) (simp_all add: set_open_def set_close_def)
  ultimately show ?thesis by (simp add: set_open_def set_close_def)
qed

theorem fixSet_order_independent_witness:
  "fixSet ''value <in set([0x2, 0x10, 0x1])> here'' = fixSet ''value <in set([0x10, 0x1, 0x2])> here''
   \<and> fixSet ''value <in set([0x10, 0x1, 0x2])> here'' = ''value <in set([0x1, 0x10, 0x2])> here''"
proof -
  have 1: "\<not> sublist ''<in set(['' ''value ''" by (simp add: sublist_Cons_right)
  have 2: "\<not> sublist ''])>'' '' here''" by (simp add: sublist_Cons_right)
  have 3: "mset [''0x2'', ''0x10'', ''0x1''] = mset [''0x10'', ''0x1'', ''0x2'']" by (simp add: add.commute)
  have 4: "\<forall>m\<in>set [''0x10'', ''0x1'', ''0x2'']. \<not> sublist '', '' m \<and> CHR 0x0A \<notin> set m"
    by (simp add: sublist_Cons_right)
  have 5: "\<not> suffix ''<in set(['' (join '', '' [''0x10'', ''0x1'', ''0x2''])"
    by (simp add: suffix_to_prefix)
  have 6: "\<not> suffix ''<in set(['' (join '', '' [''0x2'', ''0x10'', ''0x1''])"
    by (simp add: suffix_to_prefix)
  have 7: "sort [''0x10'', ''0x1'', ''0x2''] = [''0x1'', ''0x10'', ''0x2'']"
    by code_simp
  from fixSet_order_independent[OF 1 2 3 4 5 6] show ?thesis by (simp add: 7)
qed

subsection \<open>Confidence-qualifier stripping\<close>

text \<open>
  Claim C7. \<open>remove_low_confidence\<close> removes the tokens \<^verbatim>\<open>"int32_t "\<close> and \<^verbatim>\<open>"void "\<close> in
  list order, the first from the input and the second from what the first removal left.
  Each removal is global: from a string made of any number of pieces, each followed by
  the token, and a tail, none of which holds the token, all the tokens go and the pieces
  and the tail stay. In particular \<^verbatim>\<open>"int32_t foo void bar"\<close> becomes \<^verbatim>\<open>"foo bar"\<close>.
\<close>

theorem remove_low_confidence_global:
  "remove_low_confidence s = str_replace ''void '' [] (str_replace ''int32_t '' [] s)
   \<and> (\<forall>tok \<in> {''int32_t '', ''void ''}. \<forall>xs y.
         (\<forall>x \<in> set xs. \<not> sublist tok x) \<and> \<not> sublist tok y \<longrightarrow>
         str_replace tok [] (concat (map (\<lambda>x. x @ tok) xs) @ y) = concat xs @ y)
   \<and> remove_low_confidence ''int32_t foo void bar'' = ''foo bar''"
proof (intro conjI ballI allI impI)
  show "remove_low_confidence s = str_replace ''void '' [] (str_replace ''int32_t '' [] s)"
    by (simp add: remove_low_confidence_def low_confidence_types_def)
next
  fix tok :: string and xs y
  assume tok: "tok \<in> {''int32_t '', ''void ''}"
    and h: "(\<forall>x \<in> set xs. \<not> sublist tok x) \<and> \<not> sublist tok y"
  have "end_marked tok" using tok by (auto simp: end_marked_def)
  then show "str_replace tok [] (concat (map (\<lambda>x. x @ tok) xs) @ y) = concat xs @ y"
    using h by (intro str_replace_global) auto
next
  show "remove_low_confidence ''int32_t foo void bar'' = ''foo bar''"
    by (simp add: remove_low_confidence_def low_confidence_types_def)
qed

theorem remove_low_confidence_global_witness:
  "str_replace ''void '' [] (concat (map (\<lambda>x. x @ ''void '') [''int '', ''a '']) @ ''b'') = ''int a b''"
proof -
  have a: "\<forall>x \<in> set [''int '', ''a '']. \<not> sublist ''void '' x" by (simp add: sublist_Cons_right)
  have b: "\<not> sublist ''void '' ''b''" by (simp add: sublist_Cons_right)
  have t: "''void '' \<in> {''int32_t '', ''void ''}" by simp
  from remove_low_confidence_global[of "[]"]
  have "\<forall>tok \<in> {''int32_t '', ''void ''}. \<forall>xs y.
         (\<forall>x \<in> set xs. \<not> sublist tok x) \<and> \<not> sublist tok y \<longrightarrow>
         str_replace tok [] (concat (map (\<lambda>x. x @ tok) xs) @ y) = concat xs @ y"
    by blast
  with t a b have "str_replace ''void '' [] (concat (map (\<lambda>x. x @ ''void '') [''int '', ''a '']) @ ''b'')
      = concat [''int '', ''a ''] @ ''b''"
    by blast
  then show ?thesis by simp
qed

subsection \<open>The test catalogue\<close>

text \<open>
  Claim C6. The catalogue of an object is exactly the set of the names of its methods
  that begin with \<^verbatim>\<open>test_\<close>; no name occurs twice; the names come in ascending order, so
  the order is a function of the object alone. An object with the methods \<^verbatim>\<open>test_a\<close>,
  \<^verbatim>\<open>test_b\<close> and \<^verbatim>\<open>helper_c\<close> yields \<^verbatim>\<open>test_a\<close> and \<^verbatim>\<open>test_b\<close>.
\<close>

theorem methods_catalog:
  "set (methods self) = {n. map_of self n = Some Method \<and> prefix ''test_'' n}
   \<and> distinct (methods self)
   \<and> sorted (methods self)
   \<and> methods [(''test_a'', Method), (''test_b'', Method), (''helper_c'', Method)]
       = [''test_a'', ''test_b'']"
proof (intro conjI)
  have "map_of self n = Some Method \<Longrightarrow> n \<in> fst ` set self" for n
    by (metis map_of_eq_None_iff option.distinct(1))
  then show "set (methods self) = {n. map_of self n = Some Method \<and> prefix ''test_'' n}"
    by (auto simp: methods_eq dir_names_def)
  show "distinct (methods self)" by (simp add: methods_eq dir_names_def)
  show "sorted (methods self)" by (simp add: methods_eq dir_names_def sorted_wrt_filter)
  show "methods [(''test_a'', Method), (''test_b'', Method), (''helper_c'', Method)]
       = [''test_a'', ''test_b'']"
    by code_simp
qed

subsection \<open>Fixtures\<close>







end
